theory Spec2Isabelle
  imports
    Complex_Main
    "HOL-Library.Multiset"
    "HOL-Library.Char_ord"
    "HOL-Library.List_Lexorder"
begin

section \<open>Data model (types.ts)\<close>

text \<open>
  JavaScript numbers are modelled exactly: pixel coordinates, sizes and confidences as
  \<^typ>\<open>real\<close>, and pip counts, totals, columns and the difficulty (integers by their
  documentation) as \<^typ>\<open>int\<close>. The rounding of IEEE doubles is not modelled, and
  the inputs are finite numbers by their type; where the arithmetic of the source
  leaves the finite numbers on such inputs (\<open>Math.max()\<close> of no arguments, a division by
  zero), the model says so explicitly.
\<close>

datatype DiceColor = red | orange | yellow | green | blue | purple

text \<open>The string behind each colour literal: \<open>Array.prototype.sort()\<close> without a
  comparator orders its elements by these strings.\<close>

fun color_name :: "DiceColor \<Rightarrow> string" where
  "color_name red = ''red''"
| "color_name orange = ''orange''"
| "color_name yellow = ''yellow''"
| "color_name green = ''green''"
| "color_name blue = ''blue''"
| "color_name purple = ''purple''"

text \<open>\<open>VALUE_TO_COLOR[v]\<close>: a key that is not in the table reads \<open>undefined\<close>,
  here \<open>None\<close>.\<close>

definition VALUE_TO_COLOR :: "int \<Rightarrow> DiceColor option" where
  "VALUE_TO_COLOR v =
     (if v = 1 then Some red
      else if v = 2 then Some orange
      else if v = 3 then Some yellow
      else if v = 4 then Some green
      else if v = 5 then Some blue
      else if v = 6 then Some purple
      else None)"

definition GENESIS_PATTERN :: "DiceColor list" where
  "GENESIS_PATTERN = [red, red, orange, orange, yellow, yellow, green, green, green]"

definition GENESIS_VALUES :: "int list" where
  "GENESIS_VALUES = [1, 1, 2, 2, 3, 3, 4, 4, 4]"

record Bounds =
  bounds_x :: real
  bounds_y :: real
  bounds_width :: real
  bounds_height :: real

record DetectedDie =
  color :: DiceColor
  pips :: int
  confidence :: real
  bounds :: Bounds

record Position =
  position_x :: real
  position_y :: real

text \<open>The field \<open>id\<close> of the source is \<open>block_id\<close> here.\<close>

record DetectedBlock =
  block_id :: string
  dice :: "DetectedDie list"
  total :: int
  trayColor :: string
  position :: Position
  column :: int

record ValidatedBlock = DetectedBlock +
  isGenesis :: bool
  predecessorId :: "string option"
  isValid :: bool
  errors :: "string list"
  requiredColors :: "DiceColor option list"

text \<open>The fields \<open>blocks\<close> and \<open>difficulty\<close> of the source are \<open>result_blocks\<close> and
  \<open>result_difficulty\<close> here.\<close>

record ValidationResult =
  result_blocks :: "ValidatedBlock list"
  longestChain :: "string list"
  totalBlocks :: nat
  validBlocks :: nat
  invalidBlocks :: nat
  result_difficulty :: int

section \<open>Colour matching (gameRules.ts)\<close>

definition getRequiredColors :: "DetectedDie list \<Rightarrow> DiceColor option list" where
  "getRequiredColors ds = map (\<lambda>d. VALUE_TO_COLOR (pips d)) ds"

text \<open>\<open>colors.sort()\<close> on an array of colour strings.\<close>

definition sort_colors :: "DiceColor list \<Rightarrow> DiceColor list" where
  "sort_colors cs = sort_key color_name cs"

text \<open>\<open>sort()\<close> on an array that may hold \<open>undefined\<close>: the defined elements are
  ordered by their strings, the undefined ones are moved to the end.\<close>

fun defined :: "'a option list \<Rightarrow> 'a list" where
  "defined [] = []"
| "defined (None # cs) = defined cs"
| "defined (Some c # cs) = c # defined cs"

definition sort_required :: "DiceColor option list \<Rightarrow> DiceColor option list" where
  "sort_required cs =
     map Some (sort_key color_name (defined cs)) @ filter (\<lambda>c. c = None) cs"

text \<open>\<open>xs.every((c, i) => c === ys[i])\<close>, called when both arrays have the same
  length.\<close>

definition every_eq :: "'a list \<Rightarrow> 'a list \<Rightarrow> bool" where
  "every_eq xs ys = list_all (\<lambda>i. xs ! i = ys ! i) [0..<length xs]"

definition isGenesisBlock :: "'a DetectedBlock_scheme \<Rightarrow> bool" where
  "isGenesisBlock block =
     (let colors = sort_colors (map color (dice block));
          genesisColors = sort_colors GENESIS_PATTERN
      in if length colors \<noteq> length genesisColors then False
         else every_eq colors genesisColors)"

definition canBePredecessor ::
  "'a DetectedBlock_scheme \<Rightarrow> 'b DetectedBlock_scheme \<Rightarrow> bool" where
  "canBePredecessor blockA blockB =
     (let requiredColors' = getRequiredColors (dice blockA);
          actualColors = map color (dice blockB);
          sortedRequired = sort_required requiredColors';
          sortedActual = sort_colors actualColors
      in if length sortedRequired \<noteq> length sortedActual then False
         else every_eq sortedRequired (map Some sortedActual))"

section \<open>Column assignment (gameRules.ts)\<close>

text \<open>
  What the model makes of a run that has no counterpart in it: \<open>NonFinite\<close> when a
  column would be \<open>NaN\<close> or infinite, \<open>NoReturn\<close> when the recursion of
  \<open>findLongestFromNode\<close> does not come back.
\<close>

datatype failure = NonFinite | NoReturn

text \<open>\<open>blocks.findIndex(p)\<close>; \<open>None\<close> is the source's \<open>-1\<close>.\<close>

fun findIndex :: "('a \<Rightarrow> bool) \<Rightarrow> 'a list \<Rightarrow> nat option" where
  "findIndex p [] = None"
| "findIndex p (b # bs) = (if p b then Some 0 else map_option Suc (findIndex p bs))"

text \<open>\<open>Math.round\<close>: the nearest integer, a tie going up.\<close>

definition Math_round :: "real \<Rightarrow> int" where
  "Math_round r = \<lfloor>r + 1 / 2\<rfloor>"

text \<open>\<open>Math.max(...ws)\<close>; with no argument it is \<open>-Infinity\<close>, here \<open>None\<close>.\<close>

definition Math_max :: "real list \<Rightarrow> real option" where
  "Math_max ws = (case ws of [] \<Rightarrow> None | w # ws' \<Rightarrow> Some (fold max ws' w))"

text \<open>
  The \<open>reduce\<close> that estimates the width of a tray, divided by the number of blocks.
  Once a block without dice has made the sum \<open>-Infinity\<close> (\<open>None\<close>) it stays there.
\<close>

definition addWidth :: "DetectedBlock \<Rightarrow> real option \<Rightarrow> real option" where
  "addWidth b acc =
     (let diceWidths = map (\<lambda>d. bounds_width (bounds d)) (dice b)
      in case (acc, Math_max diceWidths) of
           (Some s, Some m) \<Rightarrow> Some (s + m * 3)
         | _ \<Rightarrow> None)"

definition avgWidth :: "DetectedBlock list \<Rightarrow> real option" where
  "avgWidth blocks =
     map_option (\<lambda>sum. sum / real (length blocks)) (fold addWidth blocks (Some 0))"

text \<open>
  \<open>assignColumns\<close>. With \<open>columnWidth = -Infinity\<close> every quotient is a zero and every
  column 0. With \<open>columnWidth = 0\<close> the anchor block (the genesis block, or else the
  leftmost one) gets \<open>Math.round(0 / 0) = NaN\<close>: the result is not a list of finite
  columns, and the model returns \<open>Inl NonFinite\<close>.
\<close>

definition assignColumns :: "DetectedBlock list \<Rightarrow> failure + DetectedBlock list" where
  "assignColumns blocks =
     (if blocks = [] then Inr []
      else case findIndex isGenesisBlock blocks of
        None \<Rightarrow>
          (let sortedByX = sort_key (\<lambda>b. position_x (position b)) blocks;
               minX = position_x (position (sortedByX ! 0));
               columnWidth = map_option (\<lambda>a. a * (3 / 2)) (avgWidth blocks)
           in case columnWidth of
                None \<Rightarrow> Inr (map (\<lambda>block. block\<lparr>column := 0\<rparr>) blocks)
              | Some w \<Rightarrow>
                  if w = 0 then Inl NonFinite
                  else Inr (map (\<lambda>block. block\<lparr>column :=
                         Math_round ((position_x (position block) - minX) / w)\<rparr>) blocks))
      | Some genesisIndex \<Rightarrow>
          (let genesisBlock = blocks ! genesisIndex;
               genesisX = position_x (position genesisBlock);
               blocksToRight = length (filter (\<lambda>b. position_x (position b) > genesisX) blocks);
               blocksToLeft = length (filter (\<lambda>b. position_x (position b) < genesisX) blocks);
               direction = (if blocksToRight \<ge> blocksToLeft then 1 else - 1 :: real);
               columnWidth = map_option (\<lambda>a. a * (3 / 2)) (avgWidth blocks)
           in case columnWidth of
                None \<Rightarrow> Inr (map (\<lambda>block. block\<lparr>column := max 0 0\<rparr>) blocks)
              | Some w \<Rightarrow>
                  if w = 0 then Inl NonFinite
                  else Inr (map (\<lambda>block. block\<lparr>column :=
                         max 0 (Math_round ((position_x (position block) - genesisX)
                                  * direction / w))\<rparr>) blocks)))"

text \<open>The hypothesis of the claim about columns: every die of every block has a
  positive bounding-box width.\<close>

definition positiveWidths :: "DetectedBlock list \<Rightarrow> bool" where
  "positiveWidths blocks =
     list_all (\<lambda>b. list_all (\<lambda>d. 0 < bounds_width (bounds d)) (dice b)) blocks"

section \<open>Validation (gameRules.ts)\<close>

text \<open>A number in a template string: an integer prints in decimal (the exponent
  notation that JavaScript uses from \<open>1e21\<close> on is not modelled).\<close>

fun show_nat :: "nat \<Rightarrow> string" where
  "show_nat n =
     (if n < 10 then [''0123456789'' ! n]
      else show_nat (n div 10) @ [''0123456789'' ! (n mod 10)])"

definition show_int :: "int \<Rightarrow> string" where
  "show_int i = (if i < 0 then ''-'' @ show_nat (nat (- i)) else show_nat (nat i))"

fun join :: "string \<Rightarrow> string list \<Rightarrow> string" where
  "join sep [] = []"
| "join sep [s] = s"
| "join sep (s # t # ts) = s @ sep @ join sep (t # ts)"

text \<open>
  \<open>countColors\<close>: the counters are kept in the order of the object literal; an
  \<open>undefined\<close> colour makes a seventh counter \<open>NaN\<close>, which the filter drops.
\<close>

definition countColors :: "DiceColor option list \<Rightarrow> string" where
  "countColors colors =
     join '', ''
       (map (\<lambda>(c, count). show_nat count @ '' '' @ color_name c)
          (filter (\<lambda>(c, count). count > 0)
             (map (\<lambda>c. (c, count_list colors (Some c)))
                [red, orange, yellow, green, blue, purple])))"

definition err_genesis_column :: string where
  "err_genesis_column = ''Genesis block should be in column 0''"

definition err_genesis_total :: "int \<Rightarrow> int \<Rightarrow> string" where
  "err_genesis_total t expected =
     ''Genesis total '' @ show_int t @ '' doesn'' @ [CHR 0x27] @ ''t match expected ''
       @ show_int expected"

definition err_exceeds :: "int \<Rightarrow> int \<Rightarrow> string" where
  "err_exceeds t d = ''Total '' @ show_int t @ '' exceeds difficulty '' @ show_int d"

definition err_no_candidates :: "int \<Rightarrow> string" where
  "err_no_candidates c = ''No valid blocks in column '' @ show_int c @ '' to build on''"

definition err_no_match :: string where
  "err_no_match = ''Dice colors do not match any predecessor'' @ [CHR 0x27] @ ''s values''"

definition err_required :: "DiceColor option list \<Rightarrow> DiceColor list \<Rightarrow> string" where
  "err_required required actual =
     ''Required: '' @ countColors required @ '', Got: '' @ countColors (map Some actual)"

text \<open>
  The body of the loop of \<open>buildChain\<close> for one block, given the blocks validated so
  far. The three variables \<open>predecessorId\<close>, \<open>isValid\<close> and \<open>errors\<close> of the source are
  the components of the triples; as local names they carry a prime.
\<close>

definition genesisChecks :: "DetectedBlock \<Rightarrow> string option \<times> bool \<times> string list" where
  "genesisChecks block =
     (let (isValid', errors') =
            (if column block \<noteq> 0 then (False, [err_genesis_column]) else (True, []));
          expectedTotal = fold (\<lambda>b a. a + b) GENESIS_VALUES 0;
          errors'' = (if total block \<noteq> expectedTotal
                      then errors' @ [err_genesis_total (total block) expectedTotal]
                      else errors')
      in (None, isValid', errors''))"

definition nonGenesisChecks ::
  "ValidatedBlock list \<Rightarrow> DetectedBlock \<Rightarrow> int \<Rightarrow> string option \<times> bool \<times> string list" where
  "nonGenesisChecks validatedBlocks block difficulty =
     (let (isValid', errors') =
            (if total block > difficulty
             then (False, [err_exceeds (total block) difficulty]) else (True, []));
          predecessorCandidates =
            filter (\<lambda>vb. column vb = column block - 1 \<and> isValid vb) validatedBlocks
      in if length predecessorCandidates = 0
         then (None, False, errors' @ [err_no_candidates (column block - 1)])
         else case find (\<lambda>candidate. canBePredecessor candidate block) predecessorCandidates of
                Some candidate \<Rightarrow> (Some (block_id candidate), isValid', errors')
              | None \<Rightarrow>
                  (None, False,
                   errors' @ [err_no_match]
                     @ (if length predecessorCandidates = 1
                        then (let pred = predecessorCandidates ! 0;
                                  required = getRequiredColors (dice pred);
                                  actual = map color (dice block)
                              in [err_required required actual])
                        else [])))"

definition validateBlock :: "ValidatedBlock list \<Rightarrow> DetectedBlock \<Rightarrow> int \<Rightarrow> ValidatedBlock" where
  "validateBlock validatedBlocks block difficulty =
     (let blockIsGenesis = isGenesisBlock block;
          (predecessorId', isValid', errors') =
            (if blockIsGenesis then genesisChecks block
             else nonGenesisChecks validatedBlocks block difficulty);
          requiredColors' = getRequiredColors (dice block)
      in DetectedBlock.extend block
           (ValidatedBlock.fields blockIsGenesis predecessorId' isValid' errors' requiredColors'))"

definition buildChain :: "DetectedBlock list \<Rightarrow> int \<Rightarrow> failure + ValidatedBlock list" where
  "buildChain blocks difficulty =
     (if blocks = [] then Inr []
      else case assignColumns blocks of
        Inl e \<Rightarrow> Inl e
      | Inr blocksWithColumns \<Rightarrow>
          (let sortedBlocks = sort_key column blocksWithColumns
           in Inr (fold (\<lambda>block validatedBlocks.
                      validatedBlocks @ [validateBlock validatedBlocks block difficulty])
                    sortedBlocks [])))"

section \<open>Longest chain (gameRules.ts)\<close>

text \<open>One round of the loop that builds the adjacency map. An empty string is falsy,
  so an empty predecessor id records no edge.\<close>

definition addChild :: "ValidatedBlock \<Rightarrow> (string \<rightharpoonup> string list) \<Rightarrow> (string \<rightharpoonup> string list)" where
  "addChild block children =
     (case predecessorId block of
        None \<Rightarrow> children
      | Some p \<Rightarrow>
          if p \<noteq> [] \<and> isValid block
          then (let existing = (case children p of None \<Rightarrow> [] | Some cs \<Rightarrow> cs)
                in children(p \<mapsto> existing @ [block_id block]))
          else children)"

text \<open>The loop over \<open>childIds\<close>, given the function called on each child; it does not
  return when a call does not.\<close>

fun longestOf :: "(string \<Rightarrow> string list option) \<Rightarrow> string list \<Rightarrow> string list \<Rightarrow> string list option" where
  "longestOf f [] longestChild = Some longestChild"
| "longestOf f (childId # childIds) longestChild =
     (case f childId of
        None \<Rightarrow> None
      | Some childChain \<Rightarrow>
          longestOf f childIds
            (if length childChain > length longestChild then childChain else longestChild))"

text \<open>
  \<open>findLongestFromNode\<close> with a bound on the depth of the recursion: \<open>None\<close> when the
  bound is reached, which is how a recursion that never returns shows in the model.
\<close>

primrec findLongestFromNode :: "nat \<Rightarrow> (string \<rightharpoonup> string list) \<Rightarrow> string \<Rightarrow> string list option" where
  "findLongestFromNode 0 children nodeId = None"
| "findLongestFromNode (Suc fuel) children nodeId =
     (let childIds = (case children nodeId of None \<Rightarrow> [] | Some cs \<Rightarrow> cs)
      in if length childIds = 0 then Some [nodeId]
         else case longestOf (findLongestFromNode fuel children) childIds [] of
                None \<Rightarrow> None
              | Some longestChild \<Rightarrow> Some (nodeId # longestChild))"

definition findLongestChain :: "nat \<Rightarrow> ValidatedBlock list \<Rightarrow> string list option" where
  "findLongestChain fuel blocks =
     (if blocks = [] then Some []
      else (let children = fold addChild blocks Map.empty
            in case find isGenesis blocks of
                 None \<Rightarrow> Some []
               | Some genesis \<Rightarrow> findLongestFromNode fuel children (block_id genesis)))"

definition validateBlocks :: "nat \<Rightarrow> DetectedBlock list \<Rightarrow> int \<Rightarrow> failure + ValidationResult" where
  "validateBlocks fuel blocks difficulty =
     (case buildChain blocks difficulty of
        Inl e \<Rightarrow> Inl e
      | Inr validatedBlocks \<Rightarrow>
          (case findLongestChain fuel validatedBlocks of
             None \<Rightarrow> Inl NoReturn
           | Some chain \<Rightarrow>
               Inr \<lparr>result_blocks = validatedBlocks,
                    longestChain = chain,
                    totalBlocks = length validatedBlocks,
                    validBlocks = length (filter (\<lambda>b. isValid b) validatedBlocks),
                    invalidBlocks = length (filter (\<lambda>b. \<not> isValid b) validatedBlocks),
                    result_difficulty = difficulty\<rparr>))"

section \<open>Grouping dice into blocks (diceDetector.ts)\<close>

text \<open>The inner loop over the dice of the cluster: is \<open>dieJ\<close> closer than the threshold
  to one of them? The distance is taken between the corners \<open>bounds.x\<close>, \<open>bounds.y\<close>.\<close>

definition isNearby :: "real \<Rightarrow> DetectedDie \<Rightarrow> DetectedDie list \<Rightarrow> bool" where
  "isNearby clusterThreshold dieJ cluster =
     list_ex (\<lambda>clusterDie.
        sqrt ((bounds_x (bounds dieJ) - bounds_x (bounds clusterDie))\<^sup>2
            + (bounds_y (bounds dieJ) - bounds_y (bounds clusterDie))\<^sup>2) < clusterThreshold)
       cluster"

text \<open>One round of the loop over \<open>j\<close>: the state is the cluster and the set \<open>used\<close>.\<close>

definition absorb ::
  "real \<Rightarrow> DetectedDie list \<Rightarrow> nat \<Rightarrow> DetectedDie list \<times> nat set \<Rightarrow> DetectedDie list \<times> nat set" where
  "absorb clusterThreshold sortedDice j st =
     (case st of (cluster, used) \<Rightarrow>
        if j \<in> used then (cluster, used)
        else (let dieJ = sortedDice ! j
              in if isNearby clusterThreshold dieJ cluster
                 then (cluster @ [dieJ], insert j used)
                 else (cluster, used)))"

text \<open>The block made of an accepted cluster, \<open>n\<close> being \<open>blocks.length\<close>.\<close>

definition makeBlock :: "nat \<Rightarrow> DetectedDie list \<Rightarrow> DetectedBlock" where
  "makeBlock n cluster =
     (let centerX = fold (\<lambda>d acc. acc + bounds_x (bounds d) + bounds_width (bounds d) / 2)
                      cluster 0 / real (length cluster);
          centerY = fold (\<lambda>d acc. acc + bounds_y (bounds d) + bounds_height (bounds d) / 2)
                      cluster 0 / real (length cluster);
          total' = fold (\<lambda>d acc. acc + pips d) cluster 0
      in \<lparr>block_id = ''block-'' @ show_nat n, dice = cluster, total = total',
          trayColor = ''#888888'',
          position = \<lparr>position_x = centerX, position_y = centerY\<rparr>, column = 0\<rparr>)"

text \<open>One round of the loop over \<open>i\<close>: the state is the list of blocks and the set
  \<open>used\<close>.\<close>

definition groupStep ::
  "real \<Rightarrow> DetectedDie list \<Rightarrow> nat \<Rightarrow> DetectedBlock list \<times> nat set \<Rightarrow> DetectedBlock list \<times> nat set" where
  "groupStep clusterThreshold sortedDice i st =
     (case st of (blocks, used) \<Rightarrow>
        if i \<in> used then (blocks, used)
        else (case fold (absorb clusterThreshold sortedDice) [Suc i..<length sortedDice]
                     ([sortedDice ! i], insert i used) of
                (cluster, used') \<Rightarrow>
                  (if length cluster \<ge> 7 \<and> length cluster \<le> 11
                   then blocks @ [makeBlock (length blocks) cluster]
                   else blocks,
                   used')))"

definition clusterThresholdOf :: "DetectedDie list \<Rightarrow> real" where
  "clusterThresholdOf ds =
     (let avgDieSize =
            fold (\<lambda>d acc. acc + (bounds_width (bounds d) + bounds_height (bounds d)) / 2) ds 0
              / real (length ds)
      in avgDieSize * (5 / 2))"

definition groupDiceIntoBlocks :: "DetectedDie list \<Rightarrow> DetectedBlock list" where
  "groupDiceIntoBlocks ds =
     (if length ds = 0 then []
      else (let sortedDice = sort_key (\<lambda>d. bounds_x (bounds d)) ds;
                clusterThreshold = clusterThresholdOf ds
            in fst (fold (groupStep clusterThreshold sortedDice) [0..<length sortedDice]
                      ([], {}))))"

section \<open>Invariants used in the proofs\<close>

text \<open>
  What the adjacency map holds: every child id recorded under a key \<open>p\<close> is the id of a
  valid block of \<open>S\<close> whose predecessor id is \<open>p\<close>.
\<close>

definition children_sound :: "ValidatedBlock set \<Rightarrow> (string \<rightharpoonup> string list) \<Rightarrow> bool" where
  "children_sound S m \<longleftrightarrow>
     (\<forall>p cs. m p = Some cs \<longrightarrow>
        (\<forall>c\<in>set cs. \<exists>b\<in>S. block_id b = c \<and> isValid b \<and> predecessorId b = Some p))"

section \<open>Concrete inputs\<close>

definition mkDie :: "DiceColor \<Rightarrow> int \<Rightarrow> real \<Rightarrow> real \<Rightarrow> real \<Rightarrow> DetectedDie" where
  "mkDie c p x y w =
     \<lparr>color = c, pips = p, confidence = 1,
      bounds = \<lparr>bounds_x = x, bounds_y = y, bounds_width = w, bounds_height = w\<rparr>\<rparr>"

definition mkBlock :: "string \<Rightarrow> DiceColor list \<Rightarrow> int list \<Rightarrow> real \<Rightarrow> DetectedBlock" where
  "mkBlock i cs ps x =
     \<lparr>block_id = i, dice = map2 (\<lambda>c p. mkDie c p 0 0 10) cs ps, total = sum_list ps,
      trayColor = ''#888888'', position = \<lparr>position_x = x, position_y = 0\<rparr>, column = 0\<rparr>"

text \<open>The genesis colours in another order, with the genesis pips.\<close>

definition genesisA :: DetectedBlock where
  "genesisA = mkBlock ''block-0''
     [green, red, yellow, orange, green, red, orange, green, yellow]
     [6, 1, 1, 2, 6, 1, 2, 2, 3] 100"

text \<open>Eight dice only, and nine dice with one red too many.\<close>

definition eightDice :: DetectedBlock where
  "eightDice = mkBlock ''block-1''
     [red, red, orange, orange, yellow, yellow, green, green]
     [1, 1, 2, 2, 3, 3, 4, 4] 100"

definition threeReds :: DetectedBlock where
  "threeReds = mkBlock ''block-2''
     [red, red, red, orange, orange, yellow, yellow, green, green]
     [1, 1, 1, 2, 2, 3, 3, 4, 4] 100"

text \<open>A block whose colours are the ones the pips of \<open>genesisA\<close> ask for.\<close>

definition successorA :: DetectedBlock where
  "successorA = mkBlock ''block-3''
     [red, red, red, orange, orange, orange, yellow, purple, purple]
     [1, 2, 2, 3, 1, 1, 2, 4, 6] 145"

text \<open>A genesis block whose pips were miscounted (total 25), and a second block with the
  genesis colours twenty columns to the right.\<close>

definition genesisMiscount :: DetectedBlock where
  "genesisMiscount = mkBlock ''block-4''
     [red, red, orange, orange, yellow, yellow, green, green, green]
     [1, 1, 2, 2, 3, 3, 4, 4, 5] 100"

definition genesisFar :: DetectedBlock where
  "genesisFar = mkBlock ''block-5''
     [red, red, orange, orange, yellow, yellow, green, green, green]
     [1, 1, 2, 2, 3, 3, 4, 4, 4] 1000"

text \<open>A validated block: the block with its column, and the fields of the overlay.\<close>

definition mkValidated ::
  "DetectedBlock \<Rightarrow> int \<Rightarrow> bool \<Rightarrow> string option \<Rightarrow> bool \<Rightarrow> string list \<Rightarrow> ValidatedBlock" where
  "mkValidated b c g p v es =
     DetectedBlock.extend (b\<lparr>column := c\<rparr>)
       (ValidatedBlock.fields g p v es (getRequiredColors (dice b)))"

definition vGenesisA :: ValidatedBlock where
  "vGenesisA = mkValidated genesisA 0 True None True []"

definition vSuccessorA :: ValidatedBlock where
  "vSuccessorA = mkValidated successorA 1 False (Some ''block-0'') True []"

definition vSuccessorA_over :: ValidatedBlock where
  "vSuccessorA_over = mkValidated successorA 1 False (Some ''block-0'') False
     [''Total 22 exceeds difficulty 21'']"

definition vGenesisMiscount :: ValidatedBlock where
  "vGenesisMiscount = mkValidated genesisMiscount 0 True None True
     [''Genesis total 25 doesn'' @ [CHR 0x27] @ ''t match expected 24'']"

definition vGenesisFar :: ValidatedBlock where
  "vGenesisFar = mkValidated genesisFar 20 True None False
     [''Genesis block should be in column 0'']"

definition resultA :: ValidationResult where
  "resultA = \<lparr>result_blocks = [vGenesisA, vSuccessorA],
              longestChain = [''block-0'', ''block-3''],
              totalBlocks = 2, validBlocks = 2, invalidBlocks = 0,
              result_difficulty = 25\<rparr>"

text \<open>
  A tray of nine dice of 30 pixels, 40 pixels apart in a three by three grid, the
  columns of the grid slightly slanted. The threshold is 75 pixels.
\<close>

definition trayDie :: "nat \<Rightarrow> DetectedDie" where
  "trayDie k =
     [mkDie red 1 0 0 30, mkDie red 1 1 80 30, mkDie orange 2 2 40 30,
      mkDie orange 2 40 0 30, mkDie yellow 3 41 40 30, mkDie yellow 3 42 80 30,
      mkDie green 4 80 0 30, mkDie green 4 81 40 30, mkDie green 4 82 80 30] ! k"

definition tray :: "DetectedDie list" where
  "tray = map trayDie [0, 1, 2, 3, 4, 5, 6, 7, 8]"

definition trayBlock :: DetectedBlock where
  "trayBlock =
     \<lparr>block_id = ''block-0'',
      dice = map trayDie [0, 2, 3, 4, 5, 6, 7, 8],
      total = 23, trayColor = ''#888888'',
      position = \<lparr>position_x = 61, position_y = 50\<rparr>, column = 0\<rparr>"

section \<open>Properties of the colour matching\<close>

lemma every_eq_iff: "length xs = length ys \<Longrightarrow> every_eq xs ys \<longleftrightarrow> xs = ys"
  by (auto simp: every_eq_def list_all_iff intro: nth_equalityI)

lemma inj_color_name: "inj_on color_name A"
proof (rule inj_onI)
  fix a b assume "color_name a = color_name b"
  then show "a = b" by (cases a; cases b) simp_all
qed

lemma sort_colors_eq_iff: "sort_colors xs = sort_colors ys \<longleftrightarrow> mset xs = mset ys"
proof
  assume "sort_colors xs = sort_colors ys"
  then have "mset (sort_colors xs) = mset (sort_colors ys)" by simp
  then show "mset xs = mset ys" by (simp add: sort_colors_def)
next
  assume "mset xs = mset ys"
  then show "sort_colors xs = sort_colors ys"
    unfolding sort_colors_def by (rule sort_key_eq_sort_key) (rule inj_color_name)
qed

lemma length_sort_colors: "length (sort_colors xs) = length xs"
  by (simp add: sort_colors_def)

lemma isGenesisBlock_iff:
  "isGenesisBlock block \<longleftrightarrow> mset (map color (dice block)) = mset GENESIS_PATTERN"
proof (cases "length (dice block) = length GENESIS_PATTERN")
  case True
  then show ?thesis
    by (simp add: isGenesisBlock_def Let_def length_sort_colors every_eq_iff sort_colors_eq_iff)
next
  case False
  moreover have "mset (map color (dice block)) \<noteq> mset GENESIS_PATTERN"
  proof
    assume "mset (map color (dice block)) = mset GENESIS_PATTERN"
    then have "length (map color (dice block)) = length GENESIS_PATTERN"
      by (rule mset_eq_length)
    with False show False by simp
  qed
  ultimately show ?thesis
    by (simp add: isGenesisBlock_def Let_def length_sort_colors)
qed

lemma mset_defined_split:
  "image_mset Some (mset (defined cs)) + filter_mset (\<lambda>c. c = None) (mset cs) = mset cs"
  by (induction cs rule: defined.induct) simp_all

lemma mset_defined:
  "mset (defined cs) = image_mset the (filter_mset (\<lambda>c. c \<noteq> None) (mset cs))"
  by (induction cs rule: defined.induct) simp_all

lemma mset_sort_required: "mset (sort_required cs) = mset cs"
  by (simp add: sort_required_def mset_defined_split)

lemma length_sort_required: "length (sort_required cs) = length cs"
  using mset_sort_required [of cs] by (metis size_mset)

lemma defined_map_Some: "defined (map Some xs) = xs"
  by (induction xs) simp_all

lemma sort_required_map_Some: "sort_required (map Some xs) = map Some (sort_colors xs)"
  by (simp add: sort_required_def sort_colors_def defined_map_Some)

lemma all_Some_is_map: "None \<notin> set cs \<Longrightarrow> cs = map Some (defined cs)"
  by (induction cs rule: defined.induct) simp_all

lemma sort_required_eq_iff:
  "sort_required cs = map Some (sort_colors xs) \<longleftrightarrow> mset cs = image_mset Some (mset xs)"
proof
  assume "sort_required cs = map Some (sort_colors xs)"
  then have "mset (sort_required cs) = mset (map Some (sort_colors xs))" by simp
  then show "mset cs = image_mset Some (mset xs)"
    by (simp add: mset_sort_required sort_colors_def)
next
  assume eq: "mset cs = image_mset Some (mset xs)"
  then have "set_mset (mset cs) = set_mset (image_mset Some (mset xs))" by simp
  then have "None \<notin> set cs" by auto
  then have cs: "cs = map Some (defined cs)" by (rule all_Some_is_map)
  from eq have "mset cs = mset (map Some xs)" by simp
  then have "mset (defined cs) = mset (defined (map Some xs))"
    by (simp only: mset_defined)
  then have "mset (defined cs) = mset xs"
    by (simp add: defined_map_Some)
  then have "sort_colors (defined cs) = sort_colors xs"
    by (simp add: sort_colors_eq_iff)
  then show "sort_required cs = map Some (sort_colors xs)"
    using cs sort_required_map_Some [of "defined cs"] by simp
qed

lemma canBePredecessor_iff:
  "canBePredecessor blockA blockB \<longleftrightarrow>
     mset (getRequiredColors (dice blockA)) = image_mset Some (mset (map color (dice blockB)))"
proof (cases "length (dice blockA) = length (dice blockB)")
  case True
  then show ?thesis
    by (simp add: canBePredecessor_def Let_def length_sort_required length_sort_colors
        every_eq_iff sort_required_eq_iff getRequiredColors_def)
next
  case False
  moreover have "mset (getRequiredColors (dice blockA)) \<noteq> image_mset Some (mset (map color (dice blockB)))"
  proof
    assume "mset (getRequiredColors (dice blockA)) = image_mset Some (mset (map color (dice blockB)))"
    then have "size (mset (getRequiredColors (dice blockA))) = size (image_mset Some (mset (map color (dice blockB))))"
      by simp
    with False show False by (simp add: getRequiredColors_def)
  qed
  ultimately show ?thesis
    by (simp add: canBePredecessor_def Let_def length_sort_required length_sort_colors
        getRequiredColors_def)
qed

text \<open>
  C6: \<open>isGenesisBlock\<close> returns true exactly when the multiset of the block's dice
  colours is two red, two orange, two yellow and three green. So it is true for every
  ordering of those nine colours, and false when the block does not have nine dice or
  when the count of some colour differs from the genesis pattern's.
\<close>

theorem isGenesisBlock_multiset:
  "(isGenesisBlock block \<longleftrightarrow>
      mset (map color (dice block))
        = {#red, red, orange, orange, yellow, yellow, green, green, green#})
   \<and> (mset (map color (dice block)) = mset GENESIS_PATTERN \<longrightarrow> isGenesisBlock block)
   \<and> (length (dice block) \<noteq> 9 \<longrightarrow> \<not> isGenesisBlock block)
   \<and> ((\<exists>c. count_list (map color (dice block)) c \<noteq> count_list GENESIS_PATTERN c)
        \<longrightarrow> \<not> isGenesisBlock block)"
proof (intro conjI impI)
  show "isGenesisBlock block \<longleftrightarrow>
      mset (map color (dice block))
        = {#red, red, orange, orange, yellow, yellow, green, green, green#}"
    by (simp add: isGenesisBlock_iff GENESIS_PATTERN_def)
next
  assume "mset (map color (dice block)) = mset GENESIS_PATTERN"
  then show "isGenesisBlock block" by (simp add: isGenesisBlock_iff)
next
  assume len: "length (dice block) \<noteq> 9"
  show "\<not> isGenesisBlock block"
  proof
    assume "isGenesisBlock block"
    then have "mset (map color (dice block)) = mset GENESIS_PATTERN"
      by (simp add: isGenesisBlock_iff)
    then have "length (map color (dice block)) = length GENESIS_PATTERN"
      by (rule mset_eq_length)
    with len show False by (simp add: GENESIS_PATTERN_def)
  qed
next
  assume "\<exists>c. count_list (map color (dice block)) c \<noteq> count_list GENESIS_PATTERN c"
  then obtain c where c: "count_list (map color (dice block)) c \<noteq> count_list GENESIS_PATTERN c"
    by blast
  show "\<not> isGenesisBlock block"
  proof
    assume "isGenesisBlock block"
    then have "mset (map color (dice block)) = mset GENESIS_PATTERN"
      by (simp add: isGenesisBlock_iff)
    then have "count (mset (map color (dice block))) c = count (mset GENESIS_PATTERN) c"
      by simp
    with c show False by (simp only: count_mset)
  qed
qed

theorem isGenesisBlock_multiset_witness:
  "mset (map color (dice genesisA)) = mset GENESIS_PATTERN \<and> isGenesisBlock genesisA
   \<and> length (dice eightDice) \<noteq> 9 \<and> \<not> isGenesisBlock eightDice
   \<and> count_list (map color (dice threeReds)) red \<noteq> count_list GENESIS_PATTERN red
   \<and> \<not> isGenesisBlock threeReds"
proof -
  have a: "mset (map color (dice genesisA)) = mset GENESIS_PATTERN"
    by (simp add: genesisA_def mkBlock_def mkDie_def GENESIS_PATTERN_def)
  have b: "length (dice eightDice) \<noteq> 9"
    by (simp add: eightDice_def mkBlock_def)
  have c: "count_list (map color (dice threeReds)) red \<noteq> count_list GENESIS_PATTERN red"
    by (simp add: threeReds_def mkBlock_def mkDie_def GENESIS_PATTERN_def)
  from a b c isGenesisBlock_multiset [of genesisA] isGenesisBlock_multiset [of eightDice]
    isGenesisBlock_multiset [of threeReds]
  show ?thesis by blast
qed

text \<open>
  C8: \<open>canBePredecessor A B\<close> is true exactly when the multiset of the colours
  required by A's pips equals the multiset of B's dice colours; hence replacing the dice
  of A or of B by a permutation of themselves does not change the result.
\<close>

theorem canBePredecessor_multiset:
  "(canBePredecessor blockA blockB \<longleftrightarrow>
      mset (getRequiredColors (dice blockA)) = image_mset Some (mset (map color (dice blockB))))
   \<and> (mset (dice blockA') = mset (dice blockA) \<and> mset (dice blockB') = mset (dice blockB)
        \<longrightarrow> canBePredecessor blockA' blockB' = canBePredecessor blockA blockB)"
proof (intro conjI impI)
  show "canBePredecessor blockA blockB \<longleftrightarrow>
      mset (getRequiredColors (dice blockA)) = image_mset Some (mset (map color (dice blockB)))"
    by (rule canBePredecessor_iff)
next
  assume perm: "mset (dice blockA') = mset (dice blockA) \<and> mset (dice blockB') = mset (dice blockB)"
  then have "mset (map (\<lambda>d. VALUE_TO_COLOR (pips d)) (dice blockA'))
      = mset (map (\<lambda>d. VALUE_TO_COLOR (pips d)) (dice blockA))"
    by simp
  moreover from perm have "mset (map color (dice blockB')) = mset (map color (dice blockB))"
    by simp
  ultimately show "canBePredecessor blockA' blockB' = canBePredecessor blockA blockB"
    by (simp add: canBePredecessor_iff getRequiredColors_def)
qed

theorem canBePredecessor_multiset_witness:
  "mset (dice (genesisA\<lparr>dice := rev (dice genesisA)\<rparr>)) = mset (dice genesisA)
   \<and> mset (dice (successorA\<lparr>dice := rotate1 (dice successorA)\<rparr>)) = mset (dice successorA)
   \<and> canBePredecessor (genesisA\<lparr>dice := rev (dice genesisA)\<rparr>)
         (successorA\<lparr>dice := rotate1 (dice successorA)\<rparr>)
   \<and> canBePredecessor genesisA successorA"
proof -
  have a: "mset (dice (genesisA\<lparr>dice := rev (dice genesisA)\<rparr>)) = mset (dice genesisA)"
    by simp
  have b: "mset (dice (successorA\<lparr>dice := rotate1 (dice successorA)\<rparr>)) = mset (dice successorA)"
    by (simp add: successorA_def mkBlock_def)
  have c: "mset (getRequiredColors (dice genesisA))
      = image_mset Some (mset (map color (dice successorA)))"
    by (simp add: genesisA_def successorA_def mkBlock_def mkDie_def getRequiredColors_def
        VALUE_TO_COLOR_def)
  from a b c
    canBePredecessor_multiset [of genesisA successorA
      "genesisA\<lparr>dice := rev (dice genesisA)\<rparr>" "successorA\<lparr>dice := rotate1 (dice successorA)\<rparr>"]
  show ?thesis by blast
qed

section \<open>Properties of the validation of one block\<close>

lemma validateBlock_base [simp]:
  "block_id (validateBlock vs b d) = block_id b"
  "dice (validateBlock vs b d) = dice b"
  "total (validateBlock vs b d) = total b"
  "trayColor (validateBlock vs b d) = trayColor b"
  "position (validateBlock vs b d) = position b"
  "column (validateBlock vs b d) = column b"
  "isGenesis (validateBlock vs b d) = isGenesisBlock b"
  "requiredColors (validateBlock vs b d) = getRequiredColors (dice b)"
  "DetectedBlock.truncate (validateBlock vs b d) = b"
  by (simp_all add: validateBlock_def Let_def DetectedBlock.defs ValidatedBlock.defs
      split: prod.splits)

lemma isGenesisBlock_validateBlock [simp]:
  "isGenesisBlock (validateBlock vs b d) = isGenesisBlock b"
  by (simp add: isGenesisBlock_def)

lemma validateBlock_genesis:
  assumes "isGenesisBlock b"
  shows "predecessorId (validateBlock vs b d) = None"
    and "isValid (validateBlock vs b d) \<longleftrightarrow> column b = 0"
    and "errors (validateBlock vs b d) =
           (if column b \<noteq> 0 then [err_genesis_column] else [])
             @ (if total b \<noteq> 24 then [err_genesis_total (total b) 24] else [])"
  using assms
  by (simp_all add: validateBlock_def genesisChecks_def GENESIS_VALUES_def Let_def
      DetectedBlock.defs ValidatedBlock.defs split: prod.splits)

lemma validateBlock_nonGenesis:
  assumes "\<not> isGenesisBlock b"
    and "cands = filter (\<lambda>vb. column vb = column b - 1 \<and> isValid vb) vs"
  shows "predecessorId (validateBlock vs b d)
           = map_option block_id (find (\<lambda>c. canBePredecessor c b) cands)"
    and "isValid (validateBlock vs b d) \<longleftrightarrow>
           total b \<le> d \<and> find (\<lambda>c. canBePredecessor c b) cands \<noteq> None"
    and "errors (validateBlock vs b d) =
           (if total b > d then [err_exceeds (total b) d] else [])
             @ (if cands = [] then [err_no_candidates (column b - 1)]
                else if find (\<lambda>c. canBePredecessor c b) cands = None
                then err_no_match
                       # (if length cands = 1
                          then [err_required (getRequiredColors (dice (cands ! 0)))
                                  (map color (dice b))]
                          else [])
                else [])"
  using assms
  by (auto simp add: validateBlock_def nonGenesisChecks_def Let_def
      DetectedBlock.defs ValidatedBlock.defs split: prod.splits option.splits)

lemma err_genesis_distinct: "err_genesis_total t e \<noteq> err_genesis_column"
  by (simp add: err_genesis_total_def err_genesis_column_def)

lemma err_exceeds_distinct:
  "err_exceeds t d \<noteq> err_no_candidates c"
  "err_exceeds t d \<noteq> err_no_match"
  "err_exceeds t d \<noteq> err_required r a"
  by (simp_all add: err_exceeds_def err_no_candidates_def err_no_match_def err_required_def)

lemma validateBlock_threshold:
  assumes "\<not> isGenesisBlock b"
  shows "err_exceeds (total b) d \<in> set (errors (validateBlock vs b d)) \<longleftrightarrow> total b > d"
  by (simp add: validateBlock_nonGenesis(3) [OF assms refl] err_exceeds_distinct)

lemma validateBlock_valid_pred:
  assumes "\<not> isGenesisBlock b"
  shows "isValid (validateBlock vs b d) \<longleftrightarrow>
           total b \<le> d \<and> predecessorId (validateBlock vs b d) \<noteq> None"
  by (simp add: validateBlock_nonGenesis(1,2) [OF assms refl])

section \<open>Properties of the loop of buildChain\<close>

lemma fold_validate:
  "\<exists>rest. fold (\<lambda>block vbs. vbs @ [validateBlock vbs block d]) xs acc = acc @ rest
      \<and> length rest = length xs
      \<and> (\<forall>i<length xs. rest ! i = validateBlock (acc @ take i rest) (xs ! i) d)"
proof (induction xs arbitrary: acc)
  case Nil
  then show ?case by simp
next
  case (Cons x xs)
  let ?v = "validateBlock acc x d"
  from Cons.IH [of "acc @ [?v]"] obtain rest where
    f: "fold (\<lambda>block vbs. vbs @ [validateBlock vbs block d]) xs (acc @ [?v]) = (acc @ [?v]) @ rest"
    and l: "length rest = length xs"
    and n: "\<forall>i<length xs. rest ! i = validateBlock ((acc @ [?v]) @ take i rest) (xs ! i) d"
    by blast
  have "\<forall>i<length (x # xs). (?v # rest) ! i = validateBlock (acc @ take i (?v # rest)) ((x # xs) ! i) d"
  proof (intro allI impI)
    fix i assume "i < length (x # xs)"
    then show "(?v # rest) ! i = validateBlock (acc @ take i (?v # rest)) ((x # xs) ! i) d"
      using n by (cases i) simp_all
  qed
  with f l show ?case by (intro exI [of _ "?v # rest"]) simp
qed

lemma buildChain_Inr:
  assumes "buildChain bs d = Inr vbs"
  shows "\<exists>bs'. assignColumns bs = Inr bs' \<and> length vbs = length bs'
     \<and> (\<forall>i<length vbs. vbs ! i = validateBlock (take i vbs) (sort_key column bs' ! i) d)"
proof (cases "bs = []")
  case True
  with assms show ?thesis by (simp add: buildChain_def assignColumns_def)
next
  case False
  with assms obtain bs' where a: "assignColumns bs = Inr bs'"
    and v: "vbs = fold (\<lambda>block vbs. vbs @ [validateBlock vbs block d]) (sort_key column bs') []"
    by (auto simp: buildChain_def Let_def split: sum.splits)
  from fold_validate [of d "sort_key column bs'" "[]"] v
  have "length vbs = length bs'"
    and "\<forall>i<length vbs. vbs ! i = validateBlock (take i vbs) (sort_key column bs' ! i) d"
    by auto
  with a show ?thesis by blast
qed

lemma buildChain_elem:
  assumes "buildChain bs d = Inr vbs" and "vb \<in> set vbs"
  shows "\<exists>vs b. vb = validateBlock vs b d"
proof -
  from assms(2) obtain i where "i < length vbs" "vb = vbs ! i"
    by (auto simp: in_set_conv_nth)
  with buildChain_Inr [OF assms(1)] show ?thesis by blast
qed

lemma assignColumns_columns_only:
  assumes "assignColumns bs = Inr bs'"
  shows "map (\<lambda>b. b\<lparr>column := 0\<rparr>) bs' = map (\<lambda>b. b\<lparr>column := 0\<rparr>) bs"
  using assms
  by (auto simp: assignColumns_def Let_def split: if_splits option.splits)

lemma buildChain_truncate:
  assumes "buildChain bs d = Inr vbs" and "assignColumns bs = Inr bs'"
  shows "map DetectedBlock.truncate vbs = sort_key column bs'"
proof (rule nth_equalityI)
  from buildChain_Inr [OF assms(1)] assms(2)
  have l: "length vbs = length bs'"
    and n: "\<forall>i<length vbs. vbs ! i = validateBlock (take i vbs) (sort_key column bs' ! i) d"
    by auto
  from l show "length (map DetectedBlock.truncate vbs) = length (sort_key column bs')" by simp
  fix i assume "i < length (map DetectedBlock.truncate vbs)"
  then have i: "i < length vbs" by simp
  with n have "vbs ! i = validateBlock (take i vbs) (sort_key column bs' ! i) d" by blast
  then have "DetectedBlock.truncate (vbs ! i) = sort_key column bs' ! i"
    by (metis validateBlock_base(9))
  with i show "map DetectedBlock.truncate vbs ! i = sort_key column bs' ! i" by simp
qed

lemma buildChain_blocks:
  assumes "buildChain bs d = Inr vbs"
  shows "mset (map (\<lambda>vb. (DetectedBlock.truncate vb)\<lparr>column := 0\<rparr>) vbs)
           = mset (map (\<lambda>b. b\<lparr>column := 0\<rparr>) bs)"
proof -
  from buildChain_Inr [OF assms] obtain bs' where a: "assignColumns bs = Inr bs'" by blast
  have "map (\<lambda>vb. (DetectedBlock.truncate vb)\<lparr>column := 0\<rparr>) vbs
      = map (\<lambda>b. b\<lparr>column := 0\<rparr>) (map DetectedBlock.truncate vbs)"
    by simp
  also have "\<dots> = map (\<lambda>b. b\<lparr>column := 0\<rparr>) (sort_key column bs')"
    by (simp only: buildChain_truncate [OF assms a])
  finally have "mset (map (\<lambda>vb. (DetectedBlock.truncate vb)\<lparr>column := 0\<rparr>) vbs)
      = mset (map (\<lambda>b. b\<lparr>column := 0\<rparr>) bs')"
    by simp
  with assignColumns_columns_only [OF a] show ?thesis by simp
qed

lemma length_filter_split: "length (filter P xs) + length (filter (\<lambda>x. \<not> P x) xs) = length xs"
  by (induction xs) simp_all

text \<open>
  C4: for a genesis block processed by \<open>buildChain\<close>, a column other than 0 appends the
  column error and makes the block invalid; a pip total other than 24 appends the
  diagnostic about the total and nothing else: the block is valid exactly when its
  column is 0, whatever its total.
\<close>

theorem buildChain_genesis_checks:
  assumes "buildChain bs d = Inr vbs" and "vb \<in> set vbs" and "isGenesisBlock vb"
  shows "(column vb \<noteq> 0 \<longrightarrow> err_genesis_column \<in> set (errors vb) \<and> \<not> isValid vb)
       \<and> (column vb = 0 \<longrightarrow> isValid vb)
       \<and> (isValid vb \<longleftrightarrow> column vb = 0)
       \<and> (total vb \<noteq> 24 \<longleftrightarrow> err_genesis_total (total vb) 24 \<in> set (errors vb))
       \<and> errors vb =
            (if column vb \<noteq> 0 then [err_genesis_column] else [])
              @ (if total vb \<noteq> 24 then [err_genesis_total (total vb) 24] else [])"
proof -
  from buildChain_elem [OF assms(1,2)] obtain vs b where vb: "vb = validateBlock vs b d"
    by blast
  with assms(3) have g: "isGenesisBlock b" by simp
  show ?thesis
    unfolding vb
    by (simp add: validateBlock_genesis [OF g] err_genesis_distinct)
qed

theorem buildChain_genesis_checks_witness:
  "buildChain [genesisMiscount, genesisFar] 25 = Inr [vGenesisMiscount, vGenesisFar]
   \<and> isGenesisBlock vGenesisMiscount \<and> column vGenesisMiscount = 0
   \<and> total vGenesisMiscount \<noteq> 24 \<and> isValid vGenesisMiscount
   \<and> err_genesis_total (total vGenesisMiscount) 24 \<in> set (errors vGenesisMiscount)
   \<and> isGenesisBlock vGenesisFar \<and> column vGenesisFar \<noteq> 0
   \<and> \<not> isValid vGenesisFar \<and> err_genesis_column \<in> set (errors vGenesisFar)"
proof -
  have run: "buildChain [genesisMiscount, genesisFar] 25 = Inr [vGenesisMiscount, vGenesisFar]"
    by code_simp
  have m1: "vGenesisMiscount \<in> set [vGenesisMiscount, vGenesisFar]"
    and m2: "vGenesisFar \<in> set [vGenesisMiscount, vGenesisFar]"
    by simp_all
  have g1: "isGenesisBlock vGenesisMiscount" and g2: "isGenesisBlock vGenesisFar"
    by code_simp+
  have c1: "column vGenesisMiscount = 0" and t1: "total vGenesisMiscount \<noteq> 24"
    and c2: "column vGenesisFar \<noteq> 0"
    by code_simp+
  from buildChain_genesis_checks [OF run m1 g1] buildChain_genesis_checks [OF run m2 g2]
    run g1 g2 c1 t1 c2
  show ?thesis by blast
qed

text \<open>
  C5: for a block processed by \<open>buildChain\<close> that is not a genesis block, the error
  \<open>Total t exceeds difficulty d\<close> is appended, and the block made invalid by it, exactly
  when its total is greater than the difficulty. A total equal to the difficulty passes
  the check (the block is then valid exactly when a predecessor was found); a total of
  the difficulty plus one fails it.
\<close>

theorem buildChain_threshold:
  assumes "buildChain bs d = Inr vbs" and "vb \<in> set vbs" and "\<not> isGenesisBlock vb"
  shows "(err_exceeds (total vb) d \<in> set (errors vb) \<longleftrightarrow> total vb > d)
       \<and> (total vb > d \<longrightarrow> \<not> isValid vb)
       \<and> (isValid vb \<longleftrightarrow> total vb \<le> d \<and> predecessorId vb \<noteq> None)
       \<and> (total vb = d \<longrightarrow> err_exceeds (total vb) d \<notin> set (errors vb)
            \<and> (isValid vb \<longleftrightarrow> predecessorId vb \<noteq> None))
       \<and> (total vb = d + 1 \<longrightarrow> err_exceeds (total vb) d \<in> set (errors vb) \<and> \<not> isValid vb)"
proof -
  from buildChain_elem [OF assms(1,2)] obtain vs b where vb: "vb = validateBlock vs b d"
    by blast
  with assms(3) have g: "\<not> isGenesisBlock b" by simp
  from validateBlock_threshold [OF g, of d vs] validateBlock_valid_pred [OF g, of vs d]
  show ?thesis unfolding vb by auto
qed

theorem buildChain_threshold_witness:
  "buildChain [genesisA, successorA] 22 = Inr [vGenesisA, vSuccessorA]
   \<and> \<not> isGenesisBlock vSuccessorA \<and> total vSuccessorA = 22
   \<and> err_exceeds (total vSuccessorA) 22 \<notin> set (errors vSuccessorA) \<and> isValid vSuccessorA
   \<and> buildChain [genesisA, successorA] 21 = Inr [vGenesisA, vSuccessorA_over]
   \<and> \<not> isGenesisBlock vSuccessorA_over \<and> total vSuccessorA_over = 21 + 1
   \<and> err_exceeds (total vSuccessorA_over) 21 \<in> set (errors vSuccessorA_over)
   \<and> \<not> isValid vSuccessorA_over"
proof -
  have run1: "buildChain [genesisA, successorA] 22 = Inr [vGenesisA, vSuccessorA]"
    by code_simp
  have run2: "buildChain [genesisA, successorA] 21 = Inr [vGenesisA, vSuccessorA_over]"
    by code_simp
  have g1: "\<not> isGenesisBlock vSuccessorA" and g2: "\<not> isGenesisBlock vSuccessorA_over"
    by code_simp+
  have t1: "total vSuccessorA = 22" and t2: "total vSuccessorA_over = 21 + 1"
    and p1: "predecessorId vSuccessorA \<noteq> None"
    by code_simp+
  have m1: "vSuccessorA \<in> set [vGenesisA, vSuccessorA]"
    and m2: "vSuccessorA_over \<in> set [vGenesisA, vSuccessorA_over]"
    by simp_all
  from buildChain_threshold [OF run1 m1 g1] buildChain_threshold [OF run2 m2 g2]
    run1 run2 g1 g2 t1 t2 p1
  show ?thesis by blast
qed

section \<open>Properties of the column assignment\<close>

lemma fold_max_ge: "w \<le> fold max ws (w::real)"
proof (induction ws arbitrary: w)
  case Nil
  show ?case by simp
next
  case (Cons a ws)
  have "w \<le> max a w" by simp
  also have "\<dots> \<le> fold max ws (max a w)" by (rule Cons.IH)
  finally show ?case by simp
qed

lemma Math_max_pos:
  assumes "ws \<noteq> []" and "\<forall>w\<in>set ws. 0 < w"
  shows "\<exists>m. Math_max ws = Some m \<and> 0 < m"
proof (cases ws)
  case Nil
  with assms(1) show ?thesis by simp
next
  case (Cons w ws')
  with assms(2) have "0 < w" by simp
  also have "w \<le> fold max ws' w" by (rule fold_max_ge)
  finally show ?thesis by (simp add: Math_max_def Cons)
qed

lemma Math_max_empty: "Math_max ws = None \<longleftrightarrow> ws = []"
  by (simp add: Math_max_def split: list.splits)

lemma fold_width_None: "fold addWidth bs None = None"
  by (induction bs) (simp_all add: addWidth_def)

lemma fold_width_pos:
  assumes "\<forall>b\<in>set bs. \<forall>d\<in>set (dice b). 0 < bounds_width (bounds d)"
  shows "fold addWidth bs (Some s) = None
       \<or> (\<exists>t. fold addWidth bs (Some s) = Some t \<and> s \<le> t \<and> (bs \<noteq> [] \<longrightarrow> s < t))"
  using assms
proof (induction bs arbitrary: s)
  case Nil
  show ?case by simp
next
  case (Cons b bs)
  show ?case
  proof (cases "dice b = []")
    case True
    then have "addWidth b (Some s) = None" by (simp add: addWidth_def Math_max_def)
    then show ?thesis by (simp add: fold_width_None)
  next
    case False
    moreover from Cons.prems have "\<forall>w\<in>set (map (\<lambda>d. bounds_width (bounds d)) (dice b)). 0 < w"
      by simp
    ultimately obtain m where m: "Math_max (map (\<lambda>d. bounds_width (bounds d)) (dice b)) = Some m"
      and pos: "0 < m"
      using Math_max_pos [of "map (\<lambda>d. bounds_width (bounds d)) (dice b)"] by auto
    from Cons.prems have "\<forall>b\<in>set bs. \<forall>d\<in>set (dice b). 0 < bounds_width (bounds d)" by simp
    moreover have "addWidth b (Some s) = Some (s + m * 3)" by (simp add: addWidth_def m)
    ultimately show ?thesis using Cons.IH [of "s + m * 3"] pos
      by auto
  qed
qed

lemma positiveWidths_iff:
  "positiveWidths bs \<longleftrightarrow> (\<forall>b\<in>set bs. \<forall>d\<in>set (dice b). 0 < bounds_width (bounds d))"
  by (simp add: positiveWidths_def list_all_iff)

lemma avgWidth_pos:
  assumes "positiveWidths bs" and "bs \<noteq> []"
  shows "avgWidth bs = None \<or> (\<exists>a. avgWidth bs = Some a \<and> 0 < a)"
proof -
  from assms(1) have "\<forall>b\<in>set bs. \<forall>d\<in>set (dice b). 0 < bounds_width (bounds d)"
    by (simp add: positiveWidths_iff)
  from fold_width_pos [OF this, of 0] assms(2) show ?thesis
    by (auto simp: avgWidth_def)
qed

lemma sort_key_first_least:
  fixes f :: "'a \<Rightarrow> real"
  assumes "b \<in> set bs"
  shows "f (sort_key f bs ! 0) \<le> f b"
proof -
  from assms have "set (sort_key f bs) \<noteq> {}" by auto
  then have ne: "sort_key f bs \<noteq> []" by (simp only: set_empty not_False_eq_True)
  then obtain x xs where c: "sort_key f bs = x # xs" by (cases "sort_key f bs") auto
  have "sorted (map f (sort_key f bs))" by (rule sorted_sort_key)
  with c have "\<forall>y\<in>set xs. f x \<le> f y" by simp
  moreover from assms have "b \<in> set (sort_key f bs)" by simp
  ultimately show ?thesis using c by auto
qed

lemma Math_round_nonneg: "0 \<le> q \<Longrightarrow> 0 \<le> Math_round q"
  by (simp add: Math_round_def)

lemma findIndex_Some:
  "findIndex p bs = Some i \<Longrightarrow> i < length bs \<and> p (bs ! i) \<and> (\<forall>j<i. \<not> p (bs ! j))"
proof (induction bs arbitrary: i)
  case Nil
  then show ?case by simp
next
  case (Cons b bs)
  show ?case
  proof (cases "p b")
    case True
    with Cons.prems show ?thesis by simp
  next
    case False
    with Cons.prems obtain k where k: "findIndex p bs = Some k" "i = Suc k" by auto
    from Cons.IH [OF k(1)] False k(2) show ?thesis
      by (auto simp: less_Suc_eq_0_disj)
  qed
qed

lemma isGenesisBlock_column [simp]: "isGenesisBlock (b\<lparr>column := c\<rparr>) = isGenesisBlock b"
  by (simp add: isGenesisBlock_def)

lemma assignColumns_positive:
  assumes "positiveWidths bs"
  shows "\<exists>bs'. assignColumns bs = Inr bs' \<and> length bs' = length bs
     \<and> (\<forall>b'\<in>set bs'. 0 \<le> column b')
     \<and> (\<forall>i. findIndex isGenesisBlock bs = Some i \<longrightarrow>
            isGenesisBlock (bs' ! i) \<and> column (bs' ! i) = 0)"
proof (cases "bs = []")
  case True
  then show ?thesis by (simp add: assignColumns_def)
next
  case ne: False
  show ?thesis
  proof (cases "avgWidth bs")
    case None
    with ne show ?thesis
      by (auto simp: assignColumns_def Let_def split: option.splits dest: findIndex_Some)
  next
    case 2: (Some a)
    with avgWidth_pos [OF assms ne] have "0 < a" by simp
    then have w: "0 < a * (3 / 2)" by simp
    show ?thesis
    proof (cases "findIndex isGenesisBlock bs")
      case None
      have "0 \<le> Math_round ((position_x (position b)
            - position_x (position (sort_key (\<lambda>b. position_x (position b)) bs ! 0))) / (a * (3 / 2)))"
        if "b \<in> set bs" for b
      proof -
        from that have "position_x (position (sort_key (\<lambda>b. position_x (position b)) bs ! 0))
            \<le> position_x (position b)"
          by (rule sort_key_first_least)
        with w show ?thesis by (intro Math_round_nonneg divide_nonneg_pos) simp_all
      qed
      with ne None 2 w show ?thesis
        by (auto simp: assignColumns_def Let_def)
    next
      case (Some i)
      from findIndex_Some [OF Some] have "i < length bs" "isGenesisBlock (bs ! i)" by simp_all
      with ne Some 2 w show ?thesis
        by (auto simp: assignColumns_def Let_def Math_round_def)
    qed
  qed
qed

text \<open>
  C3, as the code has it: for every list of blocks whose dice all have a positive
  bounding-box width, \<open>assignColumns\<close> returns the blocks with no column below 0, and the
  first block that satisfies \<open>isGenesisBlock\<close> (the one \<open>findIndex\<close> picks as the anchor)
  gets column 0.
\<close>

theorem assignColumns_columns:
  assumes "positiveWidths bs"
  shows "\<exists>bs'. assignColumns bs = Inr bs' \<and> length bs' = length bs
     \<and> (\<forall>b'\<in>set bs'. 0 \<le> column b')
     \<and> (\<forall>i. findIndex isGenesisBlock bs = Some i \<longrightarrow>
            isGenesisBlock (bs' ! i) \<and> column (bs' ! i) = 0)"
  using assms by (rule assignColumns_positive)

theorem assignColumns_columns_witness:
  "positiveWidths [successorA, genesisA, genesisFar]
   \<and> findIndex isGenesisBlock [successorA, genesisA, genesisFar] = Some 1
   \<and> assignColumns [successorA, genesisA, genesisFar]
       = Inr [successorA\<lparr>column := 1\<rparr>, genesisA\<lparr>column := 0\<rparr>, genesisFar\<lparr>column := 20\<rparr>]
   \<and> 0 \<le> column (successorA\<lparr>column := 1\<rparr>)
   \<and> isGenesisBlock (genesisA\<lparr>column := 0\<rparr>)
   \<and> column (genesisA\<lparr>column := 0\<rparr>) = 0"
proof -
  have pw: "positiveWidths [successorA, genesisA, genesisFar]"
    by code_simp
  have fi: "findIndex isGenesisBlock [successorA, genesisA, genesisFar] = Some 1"
    by code_simp
  have run: "assignColumns [successorA, genesisA, genesisFar]
      = Inr [successorA\<lparr>column := 1\<rparr>, genesisA\<lparr>column := 0\<rparr>, genesisFar\<lparr>column := 20\<rparr>]"
    by code_simp
  from assignColumns_columns [OF pw] obtain bs' where
    a: "assignColumns [successorA, genesisA, genesisFar] = Inr bs'"
    and nn: "\<forall>b'\<in>set bs'. 0 \<le> column b'"
    and g: "\<forall>i. findIndex isGenesisBlock [successorA, genesisA, genesisFar] = Some i \<longrightarrow>
              isGenesisBlock (bs' ! i) \<and> column (bs' ! i) = 0"
    by blast
  from a run have bs': "bs' = [successorA\<lparr>column := 1\<rparr>, genesisA\<lparr>column := 0\<rparr>,
      genesisFar\<lparr>column := 20\<rparr>]"
    by simp
  from g fi have "isGenesisBlock (bs' ! 1) \<and> column (bs' ! 1) = 0"
    by blast
  then have g1: "isGenesisBlock (genesisA\<lparr>column := 0\<rparr>) \<and> column (genesisA\<lparr>column := 0\<rparr>) = 0"
    by (simp only: bs' nth_Cons_0 nth_Cons_Suc One_nat_def)
  from nn have n1: "0 \<le> column (successorA\<lparr>column := 1\<rparr>)"
    by (simp only: bs' list.set ball_simps insert_iff)
  from pw fi run n1 g1 show ?thesis by blast
qed

text \<open>
  C3 as stated fails for a second block with the genesis colours: at the input below
  the second block satisfies \<open>isGenesisBlock\<close> and is assigned column 20.
\<close>

theorem assignColumns_second_genesis:
  "positiveWidths [genesisA, genesisFar]
   \<and> isGenesisBlock genesisFar
   \<and> assignColumns [genesisA, genesisFar]
       = Inr [genesisA\<lparr>column := 0\<rparr>, genesisFar\<lparr>column := 20\<rparr>]
   \<and> isGenesisBlock (genesisFar\<lparr>column := 20\<rparr>)
   \<and> column (genesisFar\<lparr>column := 20\<rparr>) \<noteq> 0"
  by code_simp

section \<open>Properties of the longest chain\<close>

lemma children_sound_mono: "children_sound S m \<Longrightarrow> S \<subseteq> T \<Longrightarrow> children_sound T m"
  unfolding children_sound_def by blast

lemma children_sound_addChild:
  assumes "children_sound S m"
  shows "children_sound (insert b S) (addChild b m)"
proof (cases "predecessorId b")
  case None
  with assms show ?thesis
    by (simp add: addChild_def children_sound_mono [OF _ subset_insertI])
next
  case (Some p)
  show ?thesis
  proof (cases "p \<noteq> [] \<and> isValid b")
    case False
    with Some assms show ?thesis
      by (auto simp: addChild_def intro: children_sound_mono [OF _ subset_insertI])
  next
    case True
    with Some have a: "addChild b m
        = m(p \<mapsto> (case m p of None \<Rightarrow> [] | Some cs \<Rightarrow> cs) @ [block_id b])"
      by (simp add: addChild_def)
    show ?thesis
      unfolding children_sound_def
    proof (intro allI impI ballI)
      fix q cs c
      assume m: "addChild b m q = Some cs" and c: "c \<in> set cs"
      show "\<exists>b'\<in>insert b S. block_id b' = c \<and> isValid b' \<and> predecessorId b' = Some q"
      proof (cases "q = p")
        case False
        with m a have "m q = Some cs" by simp
        with assms c show ?thesis unfolding children_sound_def by blast
      next
        case qp: True
        with m a have cs: "cs = (case m p of None \<Rightarrow> [] | Some cs \<Rightarrow> cs) @ [block_id b]"
          by simp
        show ?thesis
        proof (cases "c = block_id b")
          case True
          with \<open>p \<noteq> [] \<and> isValid b\<close> Some qp show ?thesis by auto
        next
          case False
          with c cs obtain cs' where "m p = Some cs'" "c \<in> set cs'"
            by (auto split: option.splits)
          with assms qp show ?thesis unfolding children_sound_def by blast
        qed
      qed
    qed
  qed
qed

lemma children_sound_fold:
  "children_sound S m \<Longrightarrow> children_sound (S \<union> set bs) (fold addChild bs m)"
proof (induction bs arbitrary: S m)
  case Nil
  then show ?case by simp
next
  case (Cons b bs)
  from Cons.IH [OF children_sound_addChild [OF Cons.prems, of b]]
  show ?case by simp
qed

lemma children_sound_blocks: "children_sound (set bs) (fold addChild bs Map.empty)"
proof -
  have "children_sound {} Map.empty" by (simp add: children_sound_def)
  from children_sound_fold [OF this, of bs] show ?thesis by simp
qed

lemma longestOf_cases:
  "longestOf f cs acc = Some l \<Longrightarrow> l = acc \<or> (\<exists>c\<in>set cs. f c = Some l)"
proof (induction cs arbitrary: acc)
  case Nil
  then show ?case by simp
next
  case (Cons c cs)
  from Cons.prems obtain chain where fc: "f c = Some chain"
    and rest: "longestOf f cs (if length chain > length acc then chain else acc) = Some l"
    by (auto split: option.splits)
  from Cons.IH [OF rest] fc show ?case by (auto split: if_splits)
qed

lemma longestOf_total:
  "\<forall>c\<in>set cs. f c \<noteq> None \<Longrightarrow> longestOf f cs acc \<noteq> None"
  by (induction cs arbitrary: acc) (auto split: option.splits)

lemma longestOf_cong_Some:
  assumes "\<And>c y. c \<in> set cs \<Longrightarrow> f c = Some y \<Longrightarrow> g c = Some y"
    and "longestOf f cs acc = Some l"
  shows "longestOf g cs acc = Some l"
  using assms
proof (induction cs arbitrary: acc)
  case Nil
  then show ?case by simp
next
  case (Cons c cs)
  from Cons.prems(2) obtain chain where fc: "f c = Some chain"
    and rest: "longestOf f cs (if length chain > length acc then chain else acc) = Some l"
    by (auto split: option.splits)
  from Cons.prems(1) [of c chain] fc have gc: "g c = Some chain" by simp
  have "longestOf g cs (if length chain > length acc then chain else acc) = Some l"
    by (rule Cons.IH [OF _ rest]) (simp add: Cons.prems(1))
  with gc show ?case by simp
qed

lemma findLongestFromNode_Suc:
  "findLongestFromNode n ch x = Some c \<Longrightarrow> findLongestFromNode (Suc n) ch x = Some c"
proof (induction n arbitrary: x c)
  case 0
  then show ?case by simp
next
  case (Suc n)
  show ?case
  proof (cases "length (case ch x of None \<Rightarrow> [] | Some cs \<Rightarrow> cs) = 0")
    case True
    with Suc.prems show ?thesis by (simp add: Let_def)
  next
    case False
    with Suc.prems obtain l where
      l: "longestOf (findLongestFromNode n ch) (case ch x of None \<Rightarrow> [] | Some cs \<Rightarrow> cs) [] = Some l"
      and c: "c = x # l"
      by (auto simp: Let_def split: option.splits)
    have "longestOf (findLongestFromNode (Suc n) ch) (case ch x of None \<Rightarrow> [] | Some cs \<Rightarrow> cs) []
        = Some l"
      by (rule longestOf_cong_Some [OF _ l]) (rule Suc.IH)
    with False c show ?thesis
      by (simp add: Let_def del: findLongestFromNode.simps(2)
          add: findLongestFromNode.simps(2) [of "Suc n"])
  qed
qed

lemma findLongestFromNode_mono:
  "findLongestFromNode n ch x = Some c \<Longrightarrow> n \<le> m \<Longrightarrow> findLongestFromNode m ch x = Some c"
proof (induction m)
  case 0
  then show ?case by simp
next
  case (Suc m)
  show ?case
  proof (cases "n = Suc m")
    case True
    with Suc.prems show ?thesis by (simp only:)
  next
    case False
    with Suc.prems have "n \<le> m" by simp
    from findLongestFromNode_Suc [OF Suc.IH [OF Suc.prems(1) this]] show ?thesis .
  qed
qed

lemma findLongestFromNode_chain:
  "findLongestFromNode n ch x = Some chain \<Longrightarrow>
     \<exists>rest. chain = x # rest \<and> (\<forall>c\<in>set rest. \<exists>p cs. ch p = Some cs \<and> c \<in> set cs)"
proof (induction n arbitrary: x chain)
  case 0
  then show ?case by simp
next
  case (Suc n)
  show ?case
  proof (cases "length (case ch x of None \<Rightarrow> [] | Some cs \<Rightarrow> cs) = 0")
    case True
    with Suc.prems show ?thesis by (auto simp: Let_def)
  next
    case False
    with Suc.prems obtain l where
      l: "longestOf (findLongestFromNode n ch) (case ch x of None \<Rightarrow> [] | Some cs \<Rightarrow> cs) [] = Some l"
      and c: "chain = x # l"
      by (auto simp: Let_def split: option.splits)
    from longestOf_cases [OF l]
    have "\<forall>c\<in>set l. \<exists>p cs. ch p = Some cs \<and> c \<in> set cs"
    proof
      assume "l = []"
      then show ?thesis by simp
    next
      assume "\<exists>k\<in>set (case ch x of None \<Rightarrow> [] | Some cs \<Rightarrow> cs). findLongestFromNode n ch k = Some l"
      then obtain k where k: "k \<in> set (case ch x of None \<Rightarrow> [] | Some cs \<Rightarrow> cs)"
        and fk: "findLongestFromNode n ch k = Some l"
        by blast
      from Suc.IH [OF fk] obtain rest where
        r: "l = k # rest" "\<forall>c\<in>set rest. \<exists>p cs. ch p = Some cs \<and> c \<in> set cs"
        by blast
      from k have "\<exists>p cs. ch p = Some cs \<and> k \<in> set cs"
        by (cases "ch x") auto
      with r show ?thesis by simp
    qed
    with c show ?thesis by simp
  qed
qed

lemma find_Some_mem: "find P xs = Some x \<Longrightarrow> x \<in> set xs \<and> P x"
  by (auto simp: find_Some_iff)

lemma findLongestChain_ids:
  assumes "findLongestChain fuel vbs = Some chain" and "chain \<noteq> []"
  shows "\<exists>g rest. find isGenesis vbs = Some g \<and> chain = block_id g # rest
     \<and> (\<forall>c\<in>set rest. \<exists>b\<in>set vbs. block_id b = c \<and> isValid b)"
proof -
  from assms obtain g where g: "find isGenesis vbs = Some g"
    and f: "findLongestFromNode fuel (fold addChild vbs Map.empty) (block_id g) = Some chain"
    by (auto simp: findLongestChain_def Let_def split: if_splits option.splits)
  from findLongestFromNode_chain [OF f] obtain rest where
    r: "chain = block_id g # rest"
    "\<forall>c\<in>set rest. \<exists>p cs. fold addChild vbs Map.empty p = Some cs \<and> c \<in> set cs"
    by blast
  have "\<forall>c\<in>set rest. \<exists>b\<in>set vbs. block_id b = c \<and> isValid b"
  proof
    fix c assume "c \<in> set rest"
    with r(2) obtain p cs where "fold addChild vbs Map.empty p = Some cs" "c \<in> set cs"
      by blast
    with children_sound_blocks [of vbs] show "\<exists>b\<in>set vbs. block_id b = c \<and> isValid b"
      unfolding children_sound_def by blast
  qed
  with g r(1) show ?thesis by blast
qed

lemma findLongestChain_no_children:
  assumes "find isGenesis vbs = Some g"
    and "\<forall>b\<in>set vbs. \<not> (isValid b \<and> predecessorId b = Some (block_id g))"
  shows "findLongestChain (Suc fuel) vbs = Some [block_id g]"
proof -
  from assms(1) have ne: "vbs \<noteq> []" by auto
  have "(case fold addChild vbs Map.empty (block_id g) of None \<Rightarrow> [] | Some cs \<Rightarrow> cs) = []"
  proof (cases "fold addChild vbs Map.empty (block_id g)")
    case None
    then show ?thesis by simp
  next
    case (Some cs)
    have "cs = []"
    proof (rule ccontr)
      assume "cs \<noteq> []"
      then obtain c where "c \<in> set cs" by (cases cs) auto
      with Some children_sound_blocks [of vbs] assms(2) show False
        unfolding children_sound_def by blast
    qed
    with Some show ?thesis by simp
  qed
  with ne assms(1) show ?thesis
    by (simp add: findLongestChain_def Let_def)
qed

text \<open>
  C2, as the code has it: \<open>findLongestChain\<close> returns the empty sequence when no block
  is flagged \<open>isGenesis\<close>; when it returns a non-empty sequence, a block flagged
  \<open>isGenesis\<close> exists (its \<open>isValid\<close> flag is not looked at) and the sequence starts with
  the id of the first such block; and when no valid block names that genesis block as
  its predecessor, the result is the singleton of the genesis id.
\<close>

theorem findLongestChain_genesis:
  "((\<forall>b\<in>set vbs. \<not> isGenesis b) \<longrightarrow> findLongestChain fuel vbs = Some [])
   \<and> (findLongestChain fuel vbs = Some chain \<and> chain \<noteq> [] \<longrightarrow>
        (\<exists>g\<in>set vbs. isGenesis g \<and> find isGenesis vbs = Some g \<and> hd chain = block_id g))
   \<and> (find isGenesis vbs = Some g
        \<and> (\<forall>b\<in>set vbs. \<not> (isValid b \<and> predecessorId b = Some (block_id g)))
        \<longrightarrow> findLongestChain (Suc fuel) vbs = Some [block_id g])"
proof (intro conjI impI)
  assume "\<forall>b\<in>set vbs. \<not> isGenesis b"
  then have "find isGenesis vbs = None" by (simp add: find_None_iff)
  then show "findLongestChain fuel vbs = Some []"
    by (simp add: findLongestChain_def Let_def)
next
  assume a: "findLongestChain fuel vbs = Some chain \<and> chain \<noteq> []"
  then obtain g' rest where g: "find isGenesis vbs = Some g'" and c: "chain = block_id g' # rest"
    using findLongestChain_ids [of fuel vbs chain] by blast
  from find_Some_mem [OF g] g c
  show "\<exists>g\<in>set vbs. isGenesis g \<and> find isGenesis vbs = Some g \<and> hd chain = block_id g"
    by auto
next
  assume "find isGenesis vbs = Some g
    \<and> (\<forall>b\<in>set vbs. \<not> (isValid b \<and> predecessorId b = Some (block_id g)))"
  then show "findLongestChain (Suc fuel) vbs = Some [block_id g]"
    by (simp add: findLongestChain_no_children)
qed

theorem findLongestChain_genesis_witness:
  "findLongestChain 2 [vGenesisA, vSuccessorA] = Some [''block-0'', ''block-3'']
   \<and> isGenesis vGenesisA \<and> hd [''block-0'', ''block-3''] = block_id vGenesisA
   \<and> \<not> isGenesis vSuccessorA \<and> findLongestChain 2 [vSuccessorA] = Some []
   \<and> find isGenesis [vGenesisA] = Some vGenesisA
   \<and> findLongestChain (Suc 0) [vGenesisA] = Some [block_id vGenesisA]"
proof -
  have run: "findLongestChain 2 [vGenesisA, vSuccessorA] = Some [''block-0'', ''block-3'']"
    by code_simp
  have ne: "[''block-0'', ''block-3''] \<noteq> ([] :: string list)"
    by simp
  have fa: "find isGenesis [vGenesisA, vSuccessorA] = Some vGenesisA"
    by code_simp
  have ns: "\<not> isGenesis vSuccessorA"
    by code_simp
  then have ng: "\<forall>b\<in>set [vSuccessorA]. \<not> isGenesis b"
    by simp
  have fg: "find isGenesis [vGenesisA] = Some vGenesisA"
    by code_simp
  have "\<not> (isValid vGenesisA \<and> predecessorId vGenesisA = Some (block_id vGenesisA))"
    by code_simp
  then have nc: "\<forall>b\<in>set [vGenesisA]. \<not> (isValid b \<and> predecessorId b = Some (block_id vGenesisA))"
    by simp
  from findLongestChain_genesis [of "[vGenesisA, vSuccessorA]" 2 "[''block-0'', ''block-3'']"]
    run ne
  obtain g where "isGenesis g" "find isGenesis [vGenesisA, vSuccessorA] = Some g"
    "hd [''block-0'', ''block-3''] = block_id g"
    by blast
  with fa have g: "isGenesis vGenesisA" "hd [''block-0'', ''block-3''] = block_id vGenesisA"
    by simp_all
  from findLongestChain_genesis [of "[vSuccessorA]" 2] ng
  have e: "findLongestChain 2 [vSuccessorA] = Some []"
    by blast
  from findLongestChain_genesis [where vbs = "[vGenesisA]" and g = vGenesisA and fuel = 0] fg nc
  have s: "findLongestChain (Suc 0) [vGenesisA] = Some [block_id vGenesisA]"
    by blast
  from run g ns e fg s show ?thesis by blast
qed

text \<open>
  C2 as stated asks for a valid genesis block. The search starts from the first block
  flagged \<open>isGenesis\<close> whether it is valid or not: a list whose only genesis block is
  invalid still yields its id.
\<close>

theorem findLongestChain_invalid_genesis:
  "findLongestChain 1 [vGenesisFar] = Some [''block-5'']
   \<and> isGenesis vGenesisFar \<and> \<not> isValid vGenesisFar"
  by code_simp

text \<open>
  C7: in a result returned by \<open>validateBlocks\<close>, every id of \<open>longestChain\<close> after the
  first is the id of a block of the result that is valid; the first id is the id of a
  block of the result flagged \<open>isGenesis\<close>, whatever its validity.
\<close>

theorem validateBlocks_longestChain_valid:
  assumes "validateBlocks fuel bs d = Inr r"
  shows "(\<forall>i. 0 < i \<and> i < length (longestChain r) \<longrightarrow>
            (\<exists>b\<in>set (result_blocks r). block_id b = longestChain r ! i \<and> isValid b))
       \<and> (longestChain r \<noteq> [] \<longrightarrow>
            (\<exists>g\<in>set (result_blocks r). isGenesis g \<and> block_id g = longestChain r ! 0))"
proof -
  from assms obtain vbs chain where b: "buildChain bs d = Inr vbs"
    and f: "findLongestChain fuel vbs = Some chain"
    and r: "result_blocks r = vbs" "longestChain r = chain"
    by (auto simp: validateBlocks_def split: sum.splits option.splits)
  show ?thesis
  proof (cases "chain = []")
    case True
    with r show ?thesis by simp
  next
    case False
    from findLongestChain_ids [OF f False] obtain g rest where
      g: "find isGenesis vbs = Some g" and c: "chain = block_id g # rest"
      and v: "\<forall>c\<in>set rest. \<exists>b\<in>set vbs. block_id b = c \<and> isValid b"
      by blast
    have "\<exists>b\<in>set vbs. block_id b = chain ! i \<and> isValid b" if "0 < i" "i < length chain" for i
    proof -
      from that c obtain j where "i = Suc j" "j < length rest" by (cases i) auto
      with c v show ?thesis by simp
    qed
    moreover from find_Some_mem [OF g] c
    have "\<exists>g\<in>set vbs. isGenesis g \<and> block_id g = chain ! 0" by auto
    ultimately show ?thesis by (simp add: r)
  qed
qed

theorem validateBlocks_longestChain_valid_witness:
  "validateBlocks 2 [genesisA, successorA] 25 = Inr resultA
   \<and> longestChain resultA = [''block-0'', ''block-3'']
   \<and> (\<exists>b\<in>set (result_blocks resultA). block_id b = longestChain resultA ! 1 \<and> isValid b)
   \<and> (\<exists>g\<in>set (result_blocks resultA). isGenesis g \<and> block_id g = longestChain resultA ! 0)"
proof -
  have run: "validateBlocks 2 [genesisA, successorA] 25 = Inr resultA"
    by code_simp
  have c: "longestChain resultA = [''block-0'', ''block-3'']"
    by (simp add: resultA_def)
  then have i: "0 < (1::nat) \<and> 1 < length (longestChain resultA)"
    and ne: "longestChain resultA \<noteq> []"
    by simp_all
  from validateBlocks_longestChain_valid [OF run] run c i ne show ?thesis by blast
qed

section \<open>Predecessor links and the depth of the search\<close>

lemma buildChain_predecessor:
  assumes "buildChain bs d = Inr vbs" and "vb \<in> set vbs" and "predecessorId vb = Some p"
  shows "\<exists>q\<in>set vbs. block_id q = p \<and> column q = column vb - 1 \<and> isValid q"
proof -
  from assms(2) obtain i where i: "i < length vbs" "vb = vbs ! i"
    by (auto simp: in_set_conv_nth)
  with buildChain_Inr [OF assms(1)] obtain b where vb: "vb = validateBlock (take i vbs) b d"
    by auto
  have ng: "\<not> isGenesisBlock b"
  proof
    assume "isGenesisBlock b"
    from validateBlock_genesis(1) [OF this, of "take i vbs" d] assms(3) vb show False by simp
  qed
  let ?cands = "filter (\<lambda>v. column v = column b - 1 \<and> isValid v) (take i vbs)"
  from validateBlock_nonGenesis(1) [OF ng refl, of "take i vbs" d] assms(3) vb
  obtain c where c: "find (\<lambda>c. canBePredecessor c b) ?cands = Some c" "block_id c = p"
    by auto
  from find_Some_mem [OF c(1)] have "c \<in> set ?cands" by simp
  then have "c \<in> set (take i vbs)" "column c = column b - 1" "isValid c" by simp_all
  moreover from \<open>c \<in> set (take i vbs)\<close> have "c \<in> set vbs" by (rule in_set_takeD)
  moreover have "column vb = column b" by (simp add: vb)
  ultimately show ?thesis using c(2) by auto
qed

lemma buildChain_ids:
  assumes "buildChain bs d = Inr vbs"
  shows "mset (map block_id vbs) = mset (map block_id bs)"
proof -
  have "mset (map block_id (map (\<lambda>vb. (DetectedBlock.truncate vb)\<lparr>column := 0\<rparr>) vbs))
      = mset (map block_id (map (\<lambda>b. b\<lparr>column := 0\<rparr>) bs))"
    using buildChain_blocks [OF assms] by (simp only: mset_map)
  then show ?thesis by (simp add: DetectedBlock.defs comp_def)
qed

lemma buildChain_distinct:
  assumes "buildChain bs d = Inr vbs" and "distinct (map block_id bs)"
  shows "distinct (map block_id vbs)"
  using mset_eq_imp_distinct_iff [OF buildChain_ids [OF assms(1)]] assms(2) by simp

lemma filter_length_less:
  assumes "\<forall>x\<in>set xs. P x \<longrightarrow> Q x" and "y \<in> set xs" and "Q y" and "\<not> P y"
  shows "length (filter P xs) < length (filter Q xs)"
proof -
  have "filter P xs = filter P (filter Q xs)"
    using assms(1) by (auto simp: filter_filter intro: filter_cong)
  moreover have "length (filter P (filter Q xs)) < length (filter Q xs)"
  proof (rule length_filter_less [where P = P and x = y])
    from assms(2,3) show "y \<in> set (filter Q xs)" by simp
    from assms(4) show "\<not> P y" .
  qed
  ultimately show ?thesis by simp
qed

lemma findLongestFromNode_returns:
  assumes sound: "children_sound (set vbs) ch"
    and pred: "\<forall>vb\<in>set vbs. \<forall>p. predecessorId vb = Some p \<longrightarrow>
                 (\<exists>q\<in>set vbs. block_id q = p \<and> column q = column vb - 1)"
    and dist: "distinct (map block_id vbs)"
  shows "q \<in> set vbs \<Longrightarrow> length (filter (\<lambda>b. column b > column q) vbs) < n \<Longrightarrow>
           findLongestFromNode n ch (block_id q) \<noteq> None"
proof (induction n arbitrary: q)
  case 0
  then show ?case by simp
next
  case (Suc n)
  have "findLongestFromNode n ch c \<noteq> None"
    if c: "c \<in> set (case ch (block_id q) of None \<Rightarrow> [] | Some cs \<Rightarrow> cs)" for c
  proof -
    from c obtain cs where "ch (block_id q) = Some cs" "c \<in> set cs"
      by (cases "ch (block_id q)") auto
    with sound obtain b where b: "b \<in> set vbs" "block_id b = c" "isValid b"
      "predecessorId b = Some (block_id q)"
      unfolding children_sound_def by blast
    with pred obtain q' where q': "q' \<in> set vbs" "block_id q' = block_id q"
      "column q' = column b - 1"
      by blast
    from dist have "inj_on block_id (set vbs)" by (simp add: distinct_map)
    with q'(1,2) Suc.prems(1) have "q' = q" by (auto dest: inj_onD)
    with q'(3) have col: "column b = column q + 1" by simp
    have "length (filter (\<lambda>x. column x > column b) vbs)
        < length (filter (\<lambda>x. column x > column q) vbs)"
      by (rule filter_length_less [of _ _ _ b]) (use col b(1) in auto)
    with Suc.prems(2) have "length (filter (\<lambda>x. column x > column b) vbs) < n" by simp
    from Suc.IH [OF b(1) this] b(2) show ?thesis by simp
  qed
  then have "longestOf (findLongestFromNode n ch)
      (case ch (block_id q) of None \<Rightarrow> [] | Some cs \<Rightarrow> cs) [] \<noteq> None"
    by (intro longestOf_total) blast
  then show ?case by (auto simp: Let_def split: option.splits)
qed

lemma findLongestChain_returns:
  assumes pred: "\<forall>vb\<in>set vbs. \<forall>p. predecessorId vb = Some p \<longrightarrow>
                 (\<exists>q\<in>set vbs. block_id q = p \<and> column q = column vb - 1)"
    and dist: "distinct (map block_id vbs)"
  shows "findLongestChain (length vbs) vbs \<noteq> None"
proof (cases "find isGenesis vbs")
  case None
  then show ?thesis by (simp add: findLongestChain_def Let_def)
next
  case (Some g)
  from find_Some_mem [OF Some] have g: "g \<in> set vbs" by simp
  have "\<not> column g > column g" by simp
  with g have "length (filter (\<lambda>b. column b > column g) vbs) < length vbs"
    by (rule length_filter_less [where P = "\<lambda>b. column b > column g" and x = g])
  from findLongestFromNode_returns [OF children_sound_blocks pred dist g this] Some
  show ?thesis by (simp add: findLongestChain_def Let_def)
qed

lemma findLongestChain_mono:
  assumes "findLongestChain n vbs = Some chain" and "n \<le> m"
  shows "findLongestChain m vbs = Some chain"
  using assms
  by (auto simp: findLongestChain_def Let_def split: if_splits option.splits
      intro: findLongestFromNode_mono)

lemma validateBlocks_returns:
  assumes "positiveWidths bs" and "distinct (map block_id bs)"
  shows "\<exists>r. validateBlocks (length bs) bs d = Inr r"
proof -
  from assignColumns_positive [OF assms(1)] obtain bs' where "assignColumns bs = Inr bs'"
    by blast
  then have "\<exists>vbs. buildChain bs d = Inr vbs"
    by (simp add: buildChain_def Let_def)
  then obtain vbs where b: "buildChain bs d = Inr vbs" ..
  from buildChain_ids [OF b] have "length (map block_id vbs) = length (map block_id bs)"
    by (rule mset_eq_length)
  then have l: "length vbs = length bs" by simp
  have "findLongestChain (length vbs) vbs \<noteq> None"
    using buildChain_predecessor [OF b] buildChain_distinct [OF b assms(2)]
    by (intro findLongestChain_returns) blast+
  with b l show ?thesis by (auto simp: validateBlocks_def)
qed

text \<open>
  C10: in a result returned by \<open>validateBlocks\<close>, \<open>totalBlocks\<close> is the number of input
  blocks, the valid and the invalid blocks add up to it, and the validated blocks are,
  apart from their columns, the input blocks, each one once. A result is returned
  whenever the dice have positive widths and the ids of the blocks are pairwise distinct.
\<close>

theorem validateBlocks_counts:
  "(validateBlocks fuel bs d = Inr r \<longrightarrow>
      totalBlocks r = length bs
      \<and> validBlocks r + invalidBlocks r = totalBlocks r
      \<and> length (result_blocks r) = length bs
      \<and> mset (map (\<lambda>vb. (DetectedBlock.truncate vb)\<lparr>column := 0\<rparr>) (result_blocks r))
          = mset (map (\<lambda>b. b\<lparr>column := 0\<rparr>) bs))
   \<and> (positiveWidths bs \<and> distinct (map block_id bs) \<longrightarrow>
        (\<exists>r'. validateBlocks (length bs) bs d = Inr r'))"
proof (intro conjI impI)
  assume a: "validateBlocks fuel bs d = Inr r"
  then obtain vbs chain where b: "buildChain bs d = Inr vbs"
    and r: "r = \<lparr>result_blocks = vbs, longestChain = chain, totalBlocks = length vbs,
                 validBlocks = length (filter (\<lambda>b. isValid b) vbs),
                 invalidBlocks = length (filter (\<lambda>b. \<not> isValid b) vbs),
                 result_difficulty = d\<rparr>"
    by (auto simp: validateBlocks_def split: sum.splits option.splits)
  have m: "mset (map (\<lambda>vb. (DetectedBlock.truncate vb)\<lparr>column := 0\<rparr>) vbs)
      = mset (map (\<lambda>b. b\<lparr>column := 0\<rparr>) bs)"
    by (rule buildChain_blocks [OF b])
  then have "length (map (\<lambda>vb. (DetectedBlock.truncate vb)\<lparr>column := 0\<rparr>) vbs)
      = length (map (\<lambda>b. b\<lparr>column := 0\<rparr>) bs)"
    by (rule mset_eq_length)
  then have l: "length vbs = length bs" by simp
  from l show "totalBlocks r = length bs" by (simp add: r)
  show "validBlocks r + invalidBlocks r = totalBlocks r" by (simp add: r length_filter_split)
  from l show "length (result_blocks r) = length bs" by (simp add: r)
  from m show "mset (map (\<lambda>vb. (DetectedBlock.truncate vb)\<lparr>column := 0\<rparr>) (result_blocks r))
      = mset (map (\<lambda>b. b\<lparr>column := 0\<rparr>) bs)"
    by (simp add: r)
next
  assume "positiveWidths bs \<and> distinct (map block_id bs)"
  then show "\<exists>r'. validateBlocks (length bs) bs d = Inr r'"
    by (simp add: validateBlocks_returns)
qed

theorem validateBlocks_counts_witness:
  "positiveWidths [genesisA, successorA] \<and> distinct (map block_id [genesisA, successorA])
   \<and> validateBlocks 2 [genesisA, successorA] 25 = Inr resultA
   \<and> totalBlocks resultA = length [genesisA, successorA]
   \<and> validBlocks resultA + invalidBlocks resultA = totalBlocks resultA"
proof -
  have run: "validateBlocks 2 [genesisA, successorA] 25 = Inr resultA"
    by code_simp
  have pw: "positiveWidths [genesisA, successorA]"
    and dist: "distinct (map block_id [genesisA, successorA])"
    by code_simp+
  from validateBlocks_counts [of 2 "[genesisA, successorA]" 25 resultA] run pw dist
  show ?thesis by blast
qed

text \<open>
  C9: in a list returned by \<open>buildChain\<close> whose ids are pairwise distinct, every recorded
  predecessor id is the id of a block of the list whose column is exactly one less than
  the column of the linking block; so the predecessor relation is acyclic, and the
  depth-first search of \<open>findLongestChain\<close> returns: with a depth bound of the number of
  blocks, and with every larger one, it gives one and the same chain.
\<close>

theorem buildChain_acyclic_terminates:
  assumes "buildChain bs d = Inr vbs" and "distinct (map block_id vbs)"
  shows "(\<forall>vb\<in>set vbs. \<forall>p. predecessorId vb = Some p \<longrightarrow>
            (\<exists>q\<in>set vbs. block_id q = p \<and> column q = column vb - 1))
       \<and> acyclic {(vb, q). vb \<in> set vbs \<and> q \<in> set vbs \<and> predecessorId vb = Some (block_id q)}
       \<and> (\<exists>chain. \<forall>fuel\<ge>length vbs. findLongestChain fuel vbs = Some chain)"
proof (intro conjI)
  show pred: "\<forall>vb\<in>set vbs. \<forall>p. predecessorId vb = Some p \<longrightarrow>
      (\<exists>q\<in>set vbs. block_id q = p \<and> column q = column vb - 1)"
    using buildChain_predecessor [OF assms(1)] by blast
  from assms(2) have inj: "inj_on block_id (set vbs)" by (simp add: distinct_map)
  show "acyclic {(vb, q). vb \<in> set vbs \<and> q \<in> set vbs \<and> predecessorId vb = Some (block_id q)}"
  proof (rule acyclicI_order [where f = column])
    fix vb q
    assume "(vb, q) \<in> {(vb, q). vb \<in> set vbs \<and> q \<in> set vbs
      \<and> predecessorId vb = Some (block_id q)}"
    then have m: "vb \<in> set vbs" "q \<in> set vbs" and p: "predecessorId vb = Some (block_id q)"
      by simp_all
    from pred m(1) p obtain q' where q': "q' \<in> set vbs" "block_id q' = block_id q"
      "column q' = column vb - 1"
      by blast
    from inj q'(1,2) m(2) have "q' = q" by (auto dest: inj_onD)
    with q'(3) show "column q < column vb" by simp
  qed
  from findLongestChain_returns [OF pred assms(2)]
  obtain chain where c: "findLongestChain (length vbs) vbs = Some chain" by auto
  have "\<forall>fuel\<ge>length vbs. findLongestChain fuel vbs = Some chain"
    using findLongestChain_mono [OF c] by blast
  then show "\<exists>chain. \<forall>fuel\<ge>length vbs. findLongestChain fuel vbs = Some chain" ..
qed

theorem buildChain_acyclic_terminates_witness:
  "buildChain [genesisA, successorA] 25 = Inr [vGenesisA, vSuccessorA]
   \<and> distinct (map block_id [vGenesisA, vSuccessorA])
   \<and> findLongestChain 2 [vGenesisA, vSuccessorA] = Some [''block-0'', ''block-3'']
   \<and> findLongestChain 9 [vGenesisA, vSuccessorA] = Some [''block-0'', ''block-3'']"
proof -
  have run: "buildChain [genesisA, successorA] 25 = Inr [vGenesisA, vSuccessorA]"
    by code_simp
  have dist: "distinct (map block_id [vGenesisA, vSuccessorA])"
    by code_simp
  have two: "findLongestChain 2 [vGenesisA, vSuccessorA] = Some [''block-0'', ''block-3'']"
    by code_simp
  from buildChain_acyclic_terminates [OF run dist] obtain chain where
    c: "\<forall>fuel\<ge>length [vGenesisA, vSuccessorA].
          findLongestChain fuel [vGenesisA, vSuccessorA] = Some chain"
    by blast
  have "length [vGenesisA, vSuccessorA] \<le> 2" and "length [vGenesisA, vSuccessorA] \<le> 9"
    by simp_all
  with c have "findLongestChain 2 [vGenesisA, vSuccessorA] = Some chain"
    and nine: "findLongestChain 9 [vGenesisA, vSuccessorA] = Some chain"
    by blast+
  with two have "chain = [''block-0'', ''block-3'']" by simp
  with nine run dist two show ?thesis by blast
qed

section \<open>Evaluating the grouping\<close>

lemma sqrt_less_iff_sq:
  assumes "0 \<le> a"
  shows "sqrt a < t \<longleftrightarrow> 0 < t \<and> a < t\<^sup>2"
proof
  assume l: "sqrt a < t"
  from assms have nn: "0 \<le> sqrt a" by simp
  from nn l have t: "0 < t" by (rule le_less_trans)
  from l nn have "(sqrt a)\<^sup>2 < t\<^sup>2" by (intro power_strict_mono) simp_all
  with assms t show "0 < t \<and> a < t\<^sup>2" by simp
next
  assume r: "0 < t \<and> a < t\<^sup>2"
  then have "sqrt a < sqrt (t\<^sup>2)" by (simp only: real_sqrt_less_iff)
  also have "sqrt (t\<^sup>2) = \<bar>t\<bar>" by (rule real_sqrt_abs)
  also from r have "\<bar>t\<bar> = t" by simp
  finally show "sqrt a < t" .
qed

lemma isNearby_code [code]:
  "isNearby clusterThreshold dieJ cluster \<longleftrightarrow>
     0 < clusterThreshold \<and>
     list_ex (\<lambda>clusterDie.
        (bounds_x (bounds dieJ) - bounds_x (bounds clusterDie))\<^sup>2
          + (bounds_y (bounds dieJ) - bounds_y (bounds clusterDie))\<^sup>2 < clusterThreshold\<^sup>2)
       cluster"
  by (auto simp: isNearby_def list_ex_iff sqrt_less_iff_sq)

text \<open>
  C1 says that the clusters are the connected components of the graph that joins two
  dice closer than the threshold. On the tray of nine dice the code forms a block of
  eight: the die at (1, 80) is looked at once, when the cluster holds only the die at
  (0, 0), and is not looked at again after its neighbour at (2, 40) has joined the
  cluster, although the two are closer than the threshold of 75.
\<close>

theorem groupDiceIntoBlocks_drops_die:
  "clusterThresholdOf tray = 75
   \<and> groupDiceIntoBlocks tray = [trayBlock]
   \<and> length (dice trayBlock) = 8
   \<and> trayDie 2 \<in> set (dice trayBlock)
   \<and> trayDie 1 \<notin> set (dice trayBlock)
   \<and> isNearby (clusterThresholdOf tray) (trayDie 1) [trayDie 2]"
  by code_simp


end
